theory Spec2Isabelle
  imports Main "HOL-Library.FSet"
begin

section \<open>Errors\<close>

text \<open>
  The exceptions of the Python source that matter here, as values.
  \<^item> \<open>ValueError\<close>: raised by the tuple unpacking \<^verbatim>\<open>page_docs, new_links = ...\<close> of
    \<^verbatim>\<open>WebLoader.load\<close> when the right-hand side is the empty list.
  \<^item> \<open>GraphError\<close>: any exception raised by \<^verbatim>\<open>self.graph.query\<close>.
  \<^item> \<open>ExtractionError\<close>: any exception raised by \<^verbatim>\<open>extract_graph_data\<close>.
  \<^item> \<open>LLMError\<close>: any exception raised by the entity-extraction chain of
    \<^verbatim>\<open>get_graph_context\<close>.
\<close>

datatype error = ValueError | GraphError | ExtractionError | LLMError

section \<open>web_loader.py\<close>

subsection \<open>Data\<close>

text \<open>
  \<^verbatim>\<open>Document(page_content=text, metadata={"source": url, "title": title})\<close>.
  The title is \<^verbatim>\<open>soup.title.string\<close>, which is \<^verbatim>\<open>None\<close> for a title tag without a
  single string child, hence the option.
\<close>

record document =
  page_content :: string
  metadata_source :: string
  metadata_title :: "string option"

text \<open>
  What one successful pass through the \<^verbatim>\<open>try\<close> block of \<^verbatim>\<open>scrape_page\<close> reads from the
  network: the cleaned text, \<^verbatim>\<open>soup.title\<close> (outer \<open>None\<close>: no title tag) and the
  \<^verbatim>\<open>href\<close> attributes of the anchors in document order.
\<close>

record page =
  page_text :: string
  page_title :: "string option option"
  hrefs :: "string list"

text \<open>
  The outside world of the crawler. \<open>fetch url = None\<close> stands for any exception raised
  inside the \<^verbatim>\<open>try\<close> block (network error, non-2xx status, timeout, parser or URL
  library failure); whether one is raised depends on the URL and the page only, never on
  the crawler's state. \<open>urljoin\<close> and \<open>netloc\<close> are the functions of \<^verbatim>\<open>urllib.parse\<close>
  (\<^verbatim>\<open>urlparse(url).netloc\<close>).
\<close>

record web =
  fetch :: "string \<Rightarrow> page option"
  urljoin :: "string \<Rightarrow> string \<Rightarrow> string"
  netloc :: "string \<Rightarrow> string"

text \<open>
  The \<^verbatim>\<open>WebLoader\<close> object. \<open>requested\<close> is not a field of the class: it logs, in
  order, the URLs handed to \<^verbatim>\<open>requests.get\<close>, so that statements about which pages
  are fetched can be made.
\<close>

record loader =
  start_url :: string
  max_depth :: int
  max_pages :: int
  visited :: "string fset"
  base_domain :: string
  requested :: "string list"

definition WebLoader_init :: "web \<Rightarrow> string \<Rightarrow> int \<Rightarrow> int \<Rightarrow> loader" where
  "WebLoader_init w url md mp =
     \<lparr>start_url = url, max_depth = md, max_pages = mp, visited = {||},
      base_domain = netloc w url, requested = []\<rparr>"

definition is_same_domain :: "web \<Rightarrow> loader \<Rightarrow> string \<Rightarrow> bool" where
  "is_same_domain w L url \<longleftrightarrow> netloc w url = base_domain L"

text \<open>\<^verbatim>\<open>full_url.split('#')[0]\<close>: everything before the first \<^verbatim>\<open>#\<close>.\<close>

definition strip_fragment :: "string \<Rightarrow> string" where
  "strip_fragment u = takeWhile (\<lambda>c. c \<noteq> CHR ''#'') u"

text \<open>
  \<^verbatim>\<open>scrape_page\<close> has two shapes of return value: the bare empty list of line 31 and the
  pair of lists of lines 60 and 64.
\<close>

datatype scrape_result = EmptyList | DocsLinks "document list" "string list"

definition scrape_page :: "web \<Rightarrow> loader \<Rightarrow> string \<Rightarrow> scrape_result \<times> loader" where
  "scrape_page w L url =
     (if url |\<in>| visited L \<or> int (fcard (visited L)) \<ge> max_pages L then (EmptyList, L)
      else
        let L1 = L\<lparr>visited := finsert url (visited L), requested := requested L @ [url]\<rparr> in
        (case fetch w url of
           None \<Rightarrow> (DocsLinks [] [], L1)
         | Some p \<Rightarrow>
             let title = (case page_title p of None \<Rightarrow> Some ''No Title'' | Some s \<Rightarrow> s);
                 docs = [\<lparr>page_content = page_text p, metadata_source = url,
                          metadata_title = title\<rparr>];
                 links = filter (\<lambda>full_url. is_same_domain w L1 full_url \<and> full_url |\<notin>| visited L1)
                           (map (\<lambda>href. strip_fragment (urljoin w url href)) (hrefs p))
             in (DocsLinks docs links, L1)))"

subsection \<open>The loop of \<^verbatim>\<open>load\<close>\<close>

text \<open>The local variables of \<^verbatim>\<open>load\<close> together with the object.\<close>

record crawl_state =
  self :: loader
  queue :: "(string \<times> int) list"
  all_docs :: "document list"

text \<open>
  One test of the \<^verbatim>\<open>while\<close> condition followed, when it holds, by one pass through the
  body. \<open>Return\<close> is the normal exit of the loop, \<open>Raise\<close> an exception leaving \<^verbatim>\<open>load\<close>
  (nothing in \<^verbatim>\<open>load\<close> catches it), \<open>Continue\<close> the state at the next test.
\<close>

datatype outcome = Return "document list" loader | Raise error loader | Continue crawl_state

definition load_iter :: "web \<Rightarrow> crawl_state \<Rightarrow> outcome" where
  "load_iter w s =
     (case queue s of
        [] \<Rightarrow> Return (all_docs s) (self s)
      | (current_url, current_depth) # rest \<Rightarrow>
          if \<not> int (fcard (visited (self s))) < max_pages (self s)
          then Return (all_docs s) (self s)
          else if current_depth > max_depth (self s)
          then Continue (s\<lparr>queue := rest\<rparr>)
          else
            (case scrape_page w (self s) current_url of
               (EmptyList, L1) \<Rightarrow> Raise ValueError L1
             | (DocsLinks page_docs new_links, L1) \<Rightarrow>
                 Continue
                   \<lparr>self = L1,
                    queue = rest @
                      (if current_depth < max_depth L1
                       then map (\<lambda>link. (link, current_depth + 1))
                              (filter (\<lambda>link. link |\<notin>| visited L1) new_links)
                       else []),
                    all_docs = all_docs s @ page_docs\<rparr>))"

definition crawl_measure :: "crawl_state \<Rightarrow> nat" where
  "crawl_measure s = nat (max_pages (self s) - int (fcard (visited (self s))))"

lemma load_iter_decreases:
  assumes "load_iter w s = Continue s'"
  shows "crawl_measure s' < crawl_measure s
       \<or> (crawl_measure s' = crawl_measure s \<and> length (queue s') < length (queue s))"
  using assms
  by (auto simp: load_iter_def scrape_page_def crawl_measure_def Let_def fcard_finsert_if
           split: list.splits if_splits option.splits prod.splits scrape_result.splits)

function load_loop :: "web \<Rightarrow> crawl_state \<Rightarrow> (error + document list) \<times> loader" where
  "load_loop w s =
     (case load_iter w s of
        Return docs L \<Rightarrow> (Inr docs, L)
      | Raise e L \<Rightarrow> (Inl e, L)
      | Continue s' \<Rightarrow> load_loop w s')"
  by pat_completeness auto
termination
proof (relation "measures [\<lambda>(w, s). crawl_measure s, \<lambda>(w, s). length (queue s)]")
  show "wf (measures [\<lambda>(w, s). crawl_measure s, \<lambda>(w, s). length (queue s)])"
    by simp
next
  fix w :: web and s s' :: crawl_state
  assume "load_iter w s = Continue s'"
  from load_iter_decreases [OF this]
  show "((w, s'), (w, s)) \<in> measures [\<lambda>(w, s). crawl_measure s, \<lambda>(w, s). length (queue s)]"
    by auto
qed

declare load_loop.simps [simp del]


text \<open>The state in which the loop of \<^verbatim>\<open>load\<close> starts: \<^verbatim>\<open>queue = [(self.start_url, 0)]\<close>.\<close>

definition load_start :: "loader \<Rightarrow> crawl_state" where
  "load_start L = \<lparr>self = L, queue = [(start_url L, 0)], all_docs = []\<rparr>"

definition load :: "web \<Rightarrow> loader \<Rightarrow> (error + document list) \<times> loader" where
  "load w L = load_loop w (load_start L)"

text \<open>
  The loop observed after at most \<open>n\<close> tests of its condition: \<open>Continue s\<close> when it is
  still running (\<open>s\<close> is the state at the next test), otherwise how it ended.
\<close>

fun load_steps :: "web \<Rightarrow> nat \<Rightarrow> crawl_state \<Rightarrow> outcome" where
  "load_steps w 0 s = Continue s"
| "load_steps w (Suc n) s =
     (case load_iter w s of
        Continue s' \<Rightarrow> load_steps w n s'
      | out \<Rightarrow> out)"

fun outcome_loader :: "outcome \<Rightarrow> loader" where
  "outcome_loader (Return docs L) = L"
| "outcome_loader (Raise e L) = L"
| "outcome_loader (Continue s) = self s"

section \<open>Python strings\<close>

text \<open>
  A Python \<^verbatim>\<open>str\<close> is modelled by its UTF-8 encoding, a list of bytes; a character
  outside ASCII is several bytes, none of them below 128. Equality, emptiness,
  concatenation, and splitting at or replacing an ASCII character are then the same
  operations on the bytes.

  \<^verbatim>\<open>str.strip\<close> and \<^verbatim>\<open>str.upper\<close> follow the Unicode tables of the interpreter
  (\<^verbatim>\<open>strip\<close> removes every Unicode whitespace character, \<^verbatim>\<open>upper\<close> applies the full case
  mapping, which can change the length of a string). They are built-ins, not code of the
  repository, and are taken as they are: parameters shared by the collaborators of the
  builder and of the retrieval chain.
\<close>

record python =
  str_strip :: "string \<Rightarrow> string"
  str_upper :: "string \<Rightarrow> string"

text \<open>\<^verbatim>\<open>s.replace(a, b)\<close> for single characters \<open>a\<close> and \<open>b\<close>.\<close>

definition replace_char :: "char \<Rightarrow> char \<Rightarrow> string \<Rightarrow> string" where
  "replace_char a b s = map (\<lambda>c. if c = a then b else c) s"

text \<open>\<^verbatim>\<open>sep.join(xs)\<close>.\<close>

fun join :: "string \<Rightarrow> string list \<Rightarrow> string" where
  "join sep [] = []"
| "join sep [x] = x"
| "join sep (x # y # ys) = x @ sep @ join sep (y # ys)"

section \<open>graph_builder.py\<close>

subsection \<open>Data\<close>

text \<open>The pydantic models \<^verbatim>\<open>Node\<close>, \<^verbatim>\<open>Relationship\<close> and \<^verbatim>\<open>GraphData\<close>.\<close>

record node =
  node_id :: string
  node_type :: string

record relationship =
  rel_source :: string
  rel_target :: "string option"
  rel_type :: string
  rel_description :: "string option"

record graph_data =
  nodes :: "node list"
  relationships :: "relationship list"

text \<open>
  The two Cypher statements \<^verbatim>\<open>ingest_documents\<close> sends, with their parameters:
  \<^item> \<open>MergeEntity id type\<close> is
    \<^verbatim>\<open>MERGE (n:Entity {id: $id}) SET n.type = $type\<close>;
  \<^item> \<open>MergeRelationship source target label description\<close> is
    \<^verbatim>\<open>MATCH (s:Entity {id: $source}) MATCH (t:Entity {id: $target})
    MERGE (s)-[r:label]->(t) SET r.description = $description\<close>, the label being part of
    the statement's text.
\<close>

datatype cypher =
  MergeEntity string string
| MergeRelationship string string string string

text \<open>
  The graph store: entity nodes by id with their type, edges by (source id, target id,
  label) with their description, and the statements received so far, in order
  (whether they succeeded or not).
\<close>

record graph_store =
  entities :: "string \<rightharpoonup> string"
  edges :: "(string \<times> string \<times> string) \<rightharpoonup> string"
  issued :: "cypher list"

text \<open>
  Modelled from the spec: the graph store is an external service (Neo4j) and none of it
  is in the repository. Node upsert is create-if-absent, otherwise set the type field,
  one record per id; edge upsert locates both endpoints by id, is a no-op when either is
  missing, and otherwise creates the edge of that type or updates its description, one
  edge per (source, target, type).
\<close>

fun run_cypher :: "graph_store \<Rightarrow> cypher \<Rightarrow> graph_store" where
  "run_cypher g (MergeEntity i t) = g\<lparr>entities := (entities g)(i \<mapsto> t)\<rparr>"
| "run_cypher g (MergeRelationship s t l d) =
     (if s \<in> dom (entities g) \<and> t \<in> dom (entities g)
      then g\<lparr>edges := (edges g)((s, t, l) \<mapsto> d)\<rparr>
      else g)"

text \<open>
  The collaborators of the builder, on top of the string built-ins.
  \<open>extract_graph_data env text = None\<close> stands for any exception of
  \<^verbatim>\<open>extract_graph_data\<close> (the call itself, or output that does not validate against
  \<^verbatim>\<open>GraphData\<close>); the extraction is taken to be a function of the text. \<open>rejects q\<close>
  says that the store raises on statement \<open>q\<close> (for instance a label that is not valid
  Cypher); a rejected statement changes nothing in the store.
\<close>

record builder_env = python +
  extract_graph_data :: "string \<Rightarrow> graph_data option"
  rejects :: "cypher \<Rightarrow> bool"

text \<open>\<^verbatim>\<open>self.graph.query(...)\<close>.\<close>

definition graph_query ::
  "builder_env \<Rightarrow> graph_store \<Rightarrow> cypher \<Rightarrow> (error + unit) \<times> graph_store" where
  "graph_query env g q =
     (let g1 = g\<lparr>issued := issued g @ [q]\<rparr> in
      if rejects env q then (Inl GraphError, g1) else (Inr (), run_cypher g1 q))"

subsection \<open>\<^verbatim>\<open>ingest_documents\<close>\<close>

text \<open>The \<^verbatim>\<open>for node in data.nodes\<close> loop; an exception leaves it at once.\<close>

fun ingest_nodes ::
  "builder_env \<Rightarrow> graph_store \<Rightarrow> node list \<Rightarrow> (error + unit) \<times> graph_store" where
  "ingest_nodes env g [] = (Inr (), g)"
| "ingest_nodes env g (n # ns) =
     (let clean_id = str_strip env (node_id n) in
      case graph_query env g (MergeEntity clean_id (node_type n)) of
        (Inl e, g1) \<Rightarrow> (Inl e, g1)
      | (Inr _, g1) \<Rightarrow> ingest_nodes env g1 ns)"

text \<open>Truth value of an \<^verbatim>\<open>Optional[str]\<close>: \<^verbatim>\<open>None\<close> and \<^verbatim>\<open>""\<close> are false.\<close>

fun truthy :: "string option \<Rightarrow> bool" where
  "truthy None = False"
| "truthy (Some s) = (s \<noteq> [])"

text \<open>The label interpolated into the statement: \<^verbatim>\<open>rel.type.upper().replace(' ', '_')\<close>.\<close>

definition rel_label :: "'a python_scheme \<Rightarrow> string \<Rightarrow> string" where
  "rel_label env t = replace_char (CHR '' '') (CHR ''_'') (str_upper env t)"

text \<open>The \<^verbatim>\<open>for rel in data.relationships\<close> loop.\<close>

fun ingest_relationships ::
  "builder_env \<Rightarrow> graph_store \<Rightarrow> relationship list \<Rightarrow> (error + unit) \<times> graph_store" where
  "ingest_relationships env g [] = (Inr (), g)"
| "ingest_relationships env g (rel # rels) =
     (if \<not> truthy (rel_target rel) then ingest_relationships env g rels
      else
        let clean_source = str_strip env (rel_source rel);
            clean_target = str_strip env (the (rel_target rel));
            desc = (if truthy (rel_description rel) then the (rel_description rel) else [])
        in
        case graph_query env g
               (MergeRelationship clean_source clean_target (rel_label env (rel_type rel)) desc) of
          (Inl e, g1) \<Rightarrow> (Inl e, g1)
        | (Inr _, g1) \<Rightarrow> ingest_relationships env g1 rels)"

text \<open>The part of the \<^verbatim>\<open>try\<close> body after the extraction: nodes first, then relationships.\<close>

definition ingest_graph_data ::
  "builder_env \<Rightarrow> graph_store \<Rightarrow> graph_data \<Rightarrow> (error + unit) \<times> graph_store" where
  "ingest_graph_data env g data =
     (case (if nodes data \<noteq> [] then ingest_nodes env g (nodes data) else (Inr (), g)) of
        (Inl e, g1) \<Rightarrow> (Inl e, g1)
      | (Inr _, g1) \<Rightarrow>
          if relationships data \<noteq> [] then ingest_relationships env g1 (relationships data)
          else (Inr (), g1))"

text \<open>The whole \<^verbatim>\<open>try\<close> body for one document.\<close>

definition ingest_chunk ::
  "builder_env \<Rightarrow> graph_store \<Rightarrow> document \<Rightarrow> (error + unit) \<times> graph_store" where
  "ingest_chunk env g doc =
     (case extract_graph_data env (page_content doc) of
        None \<Rightarrow> (Inl ExtractionError, g)
      | Some data \<Rightarrow> ingest_graph_data env g data)"

text \<open>
  The loop over the documents. The \<^verbatim>\<open>except\<close> clause prints the error and the loop goes
  on; the first component collects, per document, what was printed (\<open>Inr ()\<close> for
  the success line, \<open>Inl e\<close> for the warning).
\<close>

fun ingest_documents ::
  "builder_env \<Rightarrow> graph_store \<Rightarrow> document list \<Rightarrow> (error + unit) list \<times> graph_store" where
  "ingest_documents env g [] = ([], g)"
| "ingest_documents env g (doc # docs) =
     (case ingest_chunk env g doc of
        (r, g1) \<Rightarrow>
          (case ingest_documents env g1 docs of (rs, g2) \<Rightarrow> (r # rs, g2)))"

text \<open>The store before any statement has reached it.\<close>

definition empty_store :: graph_store where
  "empty_store = \<lparr>entities = Map.empty, edges = Map.empty, issued = []\<rparr>"

text \<open>
  The statements one document sends to the store when it is ingested on its own, in
  order, the statement that raised (if any) being the last.
\<close>

definition chunk_queries :: "builder_env \<Rightarrow> document \<Rightarrow> cypher list" where
  "chunk_queries env doc = issued (snd (ingest_chunk env empty_store doc))"

section \<open>rag_chain.py\<close>

text \<open>
  One row of the traversal result: \<^verbatim>\<open>source\<close>, \<^verbatim>\<open>rel_type\<close> and \<^verbatim>\<open>target\<close> as the f-string
  prints them, and \<^verbatim>\<open>target_props\<close>, a dictionary, as its items in iteration order.
\<close>

record 'v record_row =
  row_source :: string
  row_rel_type :: string
  row_target :: string
  row_target_props :: "(string \<times> 'v) list"

text \<open>
  The collaborators of \<^verbatim>\<open>get_graph_context\<close>, on top of the string built-ins: the
  entity-extraction chain and the
  traversal query (\<open>None\<close>: an exception), Python's printing of a dictionary, and the
  order in which \<^verbatim>\<open>list(set(context))\<close> enumerates the set of the strings of a list.
\<close>

record 'v rag_env = python +
  entity_chain :: "string \<Rightarrow> string option"
  traverse :: "string \<Rightarrow> 'v record_row list option"
  str_dict :: "(string \<times> 'v) list \<Rightarrow> string"
  list_of_set :: "string list \<Rightarrow> string list"

text \<open>The body of the \<^verbatim>\<open>for record in result\<close> loop: the fact appended to \<^verbatim>\<open>context\<close>.\<close>

definition render_fact :: "'v rag_env \<Rightarrow> 'v record_row \<Rightarrow> string" where
  "render_fact env record =
     (let fact = row_source record @ '' '' @ row_rel_type record @ '' '' @ row_target record;
          props = row_target_props record
      in
      if props \<noteq> [] then
        let clean_props = filter (\<lambda>(k, v). k \<notin> set [''id'', ''type'']) props in
        if clean_props \<noteq> [] then fact @ '' (Details: '' @ str_dict env clean_props @ '')''
        else fact
      else fact)"

definition get_graph_context :: "'v rag_env \<Rightarrow> string \<Rightarrow> error + string" where
  "get_graph_context env query =
     (case entity_chain env query of
        None \<Rightarrow> Inl LLMError
      | Some out \<Rightarrow>
          let entity = str_strip env out in
          (case traverse env entity of
             None \<Rightarrow> Inr []
           | Some result \<Rightarrow>
               let context = map (render_fact env) result in
               Inr (join [CHR 0x0A] (list_of_set env context))))"

section \<open>Example inputs\<close>

definition demo_netloc :: "string \<Rightarrow> string" where
  "demo_netloc u = takeWhile (\<lambda>c. c \<noteq> CHR ''/'') u"

definition good_site :: web where
  "good_site =
     \<lparr>fetch = (\<lambda>u.
        if u = ''a.com/'' then
          Some \<lparr>page_text = ''home'', page_title = None,
                hrefs = [''a.com/b'', ''x.org/z'', ''a.com/#top'']\<rparr>
        else if u = ''a.com/b'' then
          Some \<lparr>page_text = ''b'', page_title = Some (Some ''B''), hrefs = [''a.com/'']\<rparr>
        else None),
      urljoin = (\<lambda>base href. href),
      netloc = demo_netloc\<rparr>"

definition dup_site :: web where
  "dup_site =
     \<lparr>fetch = (\<lambda>u.
        if u = ''a.com/'' then
          Some \<lparr>page_text = ''home'', page_title = None, hrefs = [''a.com/b'', ''a.com/b'']\<rparr>
        else if u = ''a.com/b'' then
          Some \<lparr>page_text = ''b'', page_title = Some (Some ''B''), hrefs = []\<rparr>
        else None),
      urljoin = (\<lambda>base href. href),
      netloc = demo_netloc\<rparr>"

definition good_site_after_seed :: crawl_state where
  "good_site_after_seed =
     \<lparr>self = \<lparr>start_url = ''a.com/'', max_depth = 1, max_pages = 5,
               visited = {|''a.com/''|}, base_domain = ''a.com'', requested = [''a.com/'']\<rparr>,
      queue = [(''a.com/b'', 1)],
      all_docs = [\<lparr>page_content = ''home'', metadata_source = ''a.com/'',
                   metadata_title = Some ''No Title''\<rparr>]\<rparr>"

text \<open>
  Stand-ins for \<^verbatim>\<open>str.strip\<close> and \<^verbatim>\<open>str.upper\<close> in the examples below, whose strings
  are all ASCII: on ASCII, whitespace is the codes 9 to 13 and 28 to 32, and upper-casing
  maps \<^verbatim>\<open>a\<close>..\<^verbatim>\<open>z\<close> to \<^verbatim>\<open>A\<close>..\<^verbatim>\<open>Z\<close>. They are not used outside the examples.
\<close>

definition demo_isspace :: "char \<Rightarrow> bool" where
  "demo_isspace c \<longleftrightarrow>
     (let n = (of_char c :: nat) in (9 \<le> n \<and> n \<le> 13) \<or> (28 \<le> n \<and> n \<le> 32))"

definition demo_strip :: "string \<Rightarrow> string" where
  "demo_strip s = rev (dropWhile demo_isspace (rev (dropWhile demo_isspace s)))"

definition demo_upper_char :: "char \<Rightarrow> char" where
  "demo_upper_char c =
     (let n = (of_char c :: nat) in if 97 \<le> n \<and> n \<le> 122 then char_of (n - 32) else c)"

definition demo_upper :: "string \<Rightarrow> string" where
  "demo_upper s = map demo_upper_char s"

text \<open>
  A builder whose extraction knows two texts and raises on every other one, and whose
  store rejects a relationship statement with a hyphen in its label.
\<close>

fun demo_rejects :: "cypher \<Rightarrow> bool" where
  "demo_rejects (MergeEntity i t) = False"
| "demo_rejects (MergeRelationship s t l d) = (CHR ''-'' \<in> set l)"

definition alice :: node where
  "alice = \<lparr>node_id = '' Alice'', node_type = ''Person''\<rparr>"

definition acme :: node where
  "acme = \<lparr>node_id = ''Acme'', node_type = ''Organization''\<rparr>"

definition works_for :: relationship where
  "works_for = \<lparr>rel_source = ''Alice '', rel_target = Some ''Acme'', rel_type = ''works for'',
                 rel_description = None\<rparr>"

definition no_target :: relationship where
  "no_target = \<lparr>rel_source = ''Alice'', rel_target = None, rel_type = ''likes'',
                 rel_description = Some ''dangling''\<rparr>"

definition empty_target :: relationship where
  "empty_target = \<lparr>rel_source = ''Alice'', rel_target = Some [], rel_type = ''likes'',
                    rel_description = Some ''dangling''\<rparr>"

definition demo_builder :: builder_env where
  "demo_builder =
     \<lparr>str_strip = demo_strip, str_upper = demo_upper,
      extract_graph_data = (\<lambda>text.
        if text = ''Alice works for Acme.'' then
          Some \<lparr>nodes = [alice, acme], relationships = [works_for]\<rparr>
        else if text = ''Bob is a co-founder of Acme.'' then
          Some \<lparr>nodes = [\<lparr>node_id = ''Bob'', node_type = ''Person''\<rparr>],
                relationships = [\<lparr>rel_source = ''Bob'', rel_target = Some ''Acme'',
                                  rel_type = ''co-founder of'', rel_description = None\<rparr>]\<rparr>
        else None),
      rejects = demo_rejects\<rparr>"

definition alice_doc :: document where
  "alice_doc = \<lparr>page_content = ''Alice works for Acme.'', metadata_source = ''a.com/'',
                 metadata_title = Some ''No Title''\<rparr>"

definition bob_doc :: document where
  "bob_doc = \<lparr>page_content = ''Bob is a co-founder of Acme.'', metadata_source = ''a.com/b'',
               metadata_title = Some ''B''\<rparr>"

definition garbled_doc :: document where
  "garbled_doc = \<lparr>page_content = ''%%%'', metadata_source = ''a.com/c'',
                   metadata_title = None\<rparr>"

text \<open>
  A retrieval environment: one query resolves to the entity \<^verbatim>\<open>Acme\<close>, whose traversal
  reaches the same relationship twice; every other entity makes the store raise.
\<close>

definition demo_str_dict :: "(string \<times> string) list \<Rightarrow> string" where
  "demo_str_dict kvs = ''{'' @ join '', '' (map (\<lambda>(k, v). k @ '': '' @ v) kvs) @ ''}''"

definition alice_row :: "string record_row" where
  "alice_row = \<lparr>row_source = ''Alice'', row_rel_type = ''WORKS_FOR'', row_target = ''Acme'',
                 row_target_props = [(''id'', ''Acme''), (''type'', ''Organization'')]\<rparr>"

definition shirt_row :: "string record_row" where
  "shirt_row = \<lparr>row_source = ''Acme'', row_rel_type = ''SELLS'', row_target = ''Shirt'',
                 row_target_props = [(''id'', ''Shirt''), (''price'', ''10''), (''type'', ''Product'')]\<rparr>"

definition demo_rag :: "string rag_env" where
  "demo_rag =
     \<lparr>str_strip = demo_strip, str_upper = demo_upper,
      entity_chain = (\<lambda>query.
        if query = ''Who works for Acme?'' then Some '' Acme '' else Some ''Nobody''),
      traverse = (\<lambda>entity.
        if entity = ''Acme'' then Some [alice_row, shirt_row, alice_row] else None),
      str_dict = demo_str_dict,
      list_of_set = remdups\<rparr>"

section \<open>Invariants\<close>

text \<open>Same-domain scoping: the frontier and the documents collected so far.\<close>

definition same_host :: "web \<Rightarrow> crawl_state \<Rightarrow> bool" where
  "same_host w s \<longleftrightarrow>
     (\<forall>(u, d) \<in> set (queue s). netloc w u = base_domain (self s)) \<and>
     (\<forall>doc \<in> set (all_docs s). netloc w (metadata_source doc) = base_domain (self s))"

section \<open>Properties of the crawler\<close>

subsection \<open>One call of \<^verbatim>\<open>scrape_page\<close>\<close>

lemma scrape_page_fields:
  assumes "scrape_page w L u = (r, L1)"
  shows "max_pages L1 = max_pages L" "max_depth L1 = max_depth L"
        "base_domain L1 = base_domain L" "start_url L1 = start_url L"
  using assms by (auto simp: scrape_page_def Let_def split: if_splits option.splits)

lemma scrape_page_visited:
  assumes "scrape_page w L u = (r, L1)"
  shows "visited L |\<subseteq>| visited L1"
  using assms by (auto simp: scrape_page_def Let_def split: if_splits option.splits)

lemma scrape_page_bound:
  assumes "scrape_page w L u = (r, L1)" and "int (fcard (visited L)) \<le> max_pages L"
  shows "int (fcard (visited L1)) \<le> max_pages L"
  using assms
  by (auto simp: scrape_page_def Let_def fcard_finsert_if split: if_splits option.splits)

lemma scrape_page_result:
  assumes "scrape_page w L u = (DocsLinks docs links, L1)"
  shows "\<forall>l\<in>set links. netloc w l = base_domain L" "\<forall>d\<in>set docs. metadata_source d = u"
  using assms
  by (auto simp: scrape_page_def Let_def is_same_domain_def split: if_splits option.splits)

subsection \<open>Iterations and the whole loop\<close>

lemma load_steps_Suc:
  "load_steps w (Suc n) s =
     (case load_steps w n s of Continue s' \<Rightarrow> load_iter w s' | out \<Rightarrow> out)"
proof (induction n arbitrary: s)
  case 0
  show ?case by (cases "load_iter w s") simp_all
next
  case (Suc n)
  show ?case
  proof (cases "load_iter w s")
    case (Continue s')
    then have "load_steps w (Suc (Suc n)) s = load_steps w (Suc n) s'"
      and "load_steps w (Suc n) s = load_steps w n s'"
      by simp_all
    with Suc [of s'] show ?thesis by presburger
  qed simp_all
qed

lemma load_loop_steps:
  "\<exists>n. case load_steps w n s of
          Return docs L \<Rightarrow> load_loop w s = (Inr docs, L)
        | Raise e L \<Rightarrow> load_loop w s = (Inl e, L)
        | Continue s' \<Rightarrow> False"
proof (induction w s rule: load_loop.induct)
  case (1 w s)
  show ?case
  proof (cases "load_iter w s")
    case (Return docs L)
    then have "load_steps w (Suc 0) s = Return docs L" "load_loop w s = (Inr docs, L)"
      by (simp_all add: load_loop.simps)
    then show ?thesis by (intro exI [of _ "Suc 0"]) simp
  next
    case (Raise e L)
    then have "load_steps w (Suc 0) s = Raise e L" "load_loop w s = (Inl e, L)"
      by (simp_all add: load_loop.simps)
    then show ?thesis by (intro exI [of _ "Suc 0"]) simp
  next
    case (Continue s')
    from "1.IH" [OF this] obtain n where
      n: "case load_steps w n s' of
            Return docs L \<Rightarrow> load_loop w s' = (Inr docs, L)
          | Raise e L \<Rightarrow> load_loop w s' = (Inl e, L)
          | Continue s'' \<Rightarrow> False" ..
    have "load_steps w (Suc n) s = load_steps w n s'" "load_loop w s = load_loop w s'"
      using Continue by (simp_all add: load_loop.simps)
    with n show ?thesis by (intro exI [of _ "Suc n"]) presburger
  qed
qed

lemma load_iter_loader:
  shows "max_pages (outcome_loader (load_iter w s)) = max_pages (self s)"
    and "max_depth (outcome_loader (load_iter w s)) = max_depth (self s)"
    and "base_domain (outcome_loader (load_iter w s)) = base_domain (self s)"
    and "visited (self s) |\<subseteq>| visited (outcome_loader (load_iter w s))"
    and "int (fcard (visited (self s))) \<le> max_pages (self s) \<Longrightarrow>
         int (fcard (visited (outcome_loader (load_iter w s)))) \<le> max_pages (self s)"
  using scrape_page_fields [of w "self s"] scrape_page_visited [of w "self s"]
    scrape_page_bound [of w "self s"]
  by (auto simp: load_iter_def split: list.splits prod.splits scrape_result.splits)

lemma load_steps_max_pages:
  "max_pages (outcome_loader (load_steps w n s)) = max_pages (self s)"
proof (induction n arbitrary: s)
  case (Suc n)
  then show ?case using load_iter_loader(1) [where w = w and s = s]
    by (cases "load_iter w s") simp_all
qed simp

lemma load_steps_max_depth:
  "max_depth (outcome_loader (load_steps w n s)) = max_depth (self s)"
proof (induction n arbitrary: s)
  case (Suc n)
  then show ?case using load_iter_loader(2) [where w = w and s = s]
    by (cases "load_iter w s") simp_all
qed simp

lemma load_steps_base_domain:
  "base_domain (outcome_loader (load_steps w n s)) = base_domain (self s)"
proof (induction n arbitrary: s)
  case (Suc n)
  then show ?case using load_iter_loader(3) [where w = w and s = s]
    by (cases "load_iter w s") simp_all
qed simp

lemma load_steps_bound:
  "int (fcard (visited (self s))) \<le> max_pages (self s) \<Longrightarrow>
   int (fcard (visited (outcome_loader (load_steps w n s)))) \<le> max_pages (self s)"
proof (induction n arbitrary: s)
  case (Suc n)
  show ?case
  proof (cases "load_iter w s")
    case (Continue s')
    with load_iter_loader(1,5) [where w = w and s = s] Suc.prems
    have "max_pages (self s') = max_pages (self s)"
      and "int (fcard (visited (self s'))) \<le> max_pages (self s')"
      by simp_all
    with Suc.IH [of s'] Continue show ?thesis by simp
  next
    case (Return docs L)
    with load_iter_loader(5) [where w = w and s = s] Suc.prems show ?thesis by simp
  next
    case (Raise e L)
    with load_iter_loader(5) [where w = w and s = s] Suc.prems show ?thesis by simp
  qed
qed simp

lemma load_steps_visited_mono:
  "visited (outcome_loader (load_steps w n s)) |\<subseteq>|
   visited (outcome_loader (load_steps w (Suc n) s))"
  using load_iter_loader(4) [where w = w]
  by (cases "load_steps w n s") (simp_all only: load_steps_Suc outcome.case outcome_loader.simps fsubset_refl)

lemma load_iter_fetch_depth:
  assumes "queue s = (u, d) # rest"
      and "requested (outcome_loader (load_iter w s)) \<noteq> requested (self s)"
  shows "d \<le> max_depth (self s)"
  using assms by (auto simp: load_iter_def split: if_splits)

text \<open>
  Claim C7. For a loader created with \<open>0 \<le> max_pages\<close> (the crawler's contract asks for
  \<open>max_pages \<ge> 1\<close>), at every test of the loop condition and in whatever way the loop
  has ended, the visited set holds at most \<open>max_pages\<close> URLs; it only grows from one
  step to the next; \<^verbatim>\<open>load\<close> leaves at most \<open>max_pages\<close> URLs in it; and an iteration
  that hands a URL to \<^verbatim>\<open>requests.get\<close> has dequeued it at a depth of at most \<open>max_depth\<close>.
\<close>

theorem visited_bounded_depth_limited:
  assumes "0 \<le> mp"
  shows "int (fcard (visited (outcome_loader
           (load_steps w n (load_start (WebLoader_init w url md mp)))))) \<le> mp
       \<and> visited (outcome_loader (load_steps w n (load_start (WebLoader_init w url md mp))))
           |\<subseteq>| visited (outcome_loader
                 (load_steps w (Suc n) (load_start (WebLoader_init w url md mp))))
       \<and> int (fcard (visited (snd (load w (WebLoader_init w url md mp))))) \<le> mp
       \<and> (load_steps w n (load_start (WebLoader_init w url md mp)) = Continue s
            \<and> queue s = (u, d) # rest
            \<and> requested (outcome_loader (load_iter w s)) \<noteq> requested (self s)
          \<longrightarrow> d \<le> md)"
proof -
  let ?L = "WebLoader_init w url md mp"
  let ?s0 = "load_start ?L"
  have init: "max_pages (self ?s0) = mp" "max_depth (self ?s0) = md"
    "int (fcard (visited (self ?s0))) \<le> max_pages (self ?s0)"
    using assms by (simp_all add: load_start_def WebLoader_init_def fcard_fempty)
  have bound: "int (fcard (visited (outcome_loader (load_steps w k ?s0)))) \<le> mp" for k
    using load_steps_bound [of ?s0 w k] init by simp
  have final: "int (fcard (visited (snd (load w ?L)))) \<le> mp"
  proof -
    obtain k where k: "case load_steps w k ?s0 of
          Return docs L \<Rightarrow> load_loop w ?s0 = (Inr docs, L)
        | Raise e L \<Rightarrow> load_loop w ?s0 = (Inl e, L)
        | Continue s' \<Rightarrow> False"
      using load_loop_steps [of w ?s0] ..
    then have "snd (load w ?L) = outcome_loader (load_steps w k ?s0)"
      by (cases "load_steps w k ?s0") (simp_all add: load_def)
    with bound [of k] show ?thesis by simp
  qed
  have depth: "d \<le> md"
    if "load_steps w n ?s0 = Continue s" "queue s = (u, d) # rest"
       "requested (outcome_loader (load_iter w s)) \<noteq> requested (self s)"
  proof -
    have "max_depth (self s) = md"
      using load_steps_max_depth [of w n ?s0] that(1) init(2) by simp
    with load_iter_fetch_depth [OF that(2,3)] show ?thesis by simp
  qed
  from bound [of n] load_steps_visited_mono [of w n ?s0] final depth
  show ?thesis by blast
qed

lemmas crawl_eval =
  load_def load_start_def load_loop.simps load_iter_def scrape_page_def WebLoader_init_def
  is_same_domain_def strip_fragment_def demo_netloc_def fcard_finsert_if fcard_fempty Let_def

theorem visited_bounded_depth_limited_witness:
  "(0::int) \<le> 5
   \<and> int (fcard (visited (outcome_loader
         (load_steps good_site 1 (load_start (WebLoader_init good_site ''a.com/'' 1 5)))))) \<le> 5
   \<and> visited (outcome_loader
         (load_steps good_site 1 (load_start (WebLoader_init good_site ''a.com/'' 1 5))))
       |\<subseteq>| visited (outcome_loader
         (load_steps good_site (Suc 1) (load_start (WebLoader_init good_site ''a.com/'' 1 5))))
   \<and> int (fcard (visited (snd (load good_site (WebLoader_init good_site ''a.com/'' 1 5))))) \<le> 5
   \<and> load_steps good_site 1 (load_start (WebLoader_init good_site ''a.com/'' 1 5))
       = Continue good_site_after_seed
   \<and> queue good_site_after_seed = (''a.com/b'', 1) # []
   \<and> requested (outcome_loader (load_iter good_site good_site_after_seed))
       \<noteq> requested (self good_site_after_seed)
   \<and> (1::int) \<le> 1"
proof -
  have step: "load_steps good_site 1 (load_start (WebLoader_init good_site ''a.com/'' 1 5))
      = Continue good_site_after_seed"
    by (simp add: crawl_eval good_site_def good_site_after_seed_def)
  have q: "queue good_site_after_seed = (''a.com/b'', 1) # []"
    by (simp add: good_site_after_seed_def)
  have r: "requested (outcome_loader (load_iter good_site good_site_after_seed))
       \<noteq> requested (self good_site_after_seed)"
    by (simp add: crawl_eval good_site_def good_site_after_seed_def)
  from visited_bounded_depth_limited
    [of 5 good_site 1 "''a.com/''" 1 good_site_after_seed "''a.com/b''" 1 "[]"] step q r
  show ?thesis by simp
qed

text \<open>
  The skip path of \<^verbatim>\<open>scrape_page\<close> as \<^verbatim>\<open>load\<close> meets it: with the page cap not reached and
  the depth within bounds, dequeuing a URL that is already visited ends \<^verbatim>\<open>load\<close> with
  \<^verbatim>\<open>ValueError\<close>.
\<close>

lemma load_iter_visited_raises:
  assumes "queue s = (u, d) # rest"
      and "int (fcard (visited (self s))) < max_pages (self s)"
      and "d \<le> max_depth (self s)"
      and "u |\<in>| visited (self s)"
  shows "load_iter w s = Raise ValueError (self s)"
  using assms by (simp add: load_iter_def scrape_page_def)

lemma load_iter_deep_skipped:
  assumes "queue s = (u, d) # rest"
      and "int (fcard (visited (self s))) < max_pages (self s)"
      and "max_depth (self s) < d"
  shows "load_iter w s = Continue (s\<lparr>queue := rest\<rparr>)"
  using assms by (simp add: load_iter_def)

text \<open>
  Claim C1. The claim says that a dequeued URL that is already visited is skipped and
  that \<^verbatim>\<open>load\<close> returns normally. On a seed page with two anchors to the same
  same-domain page (default depth 2 and 20 pages) the second copy of the link is
  dequeued when its URL is already visited, \<^verbatim>\<open>scrape_page\<close> returns the bare empty list
  and the unpacking in \<^verbatim>\<open>load\<close> raises \<^verbatim>\<open>ValueError\<close>: \<^verbatim>\<open>load\<close> does not return.
\<close>

theorem load_raises_on_duplicate_link:
  "fst (load dup_site (WebLoader_init dup_site ''a.com/'' 2 20)) = Inl ValueError"
  by (simp add: crawl_eval dup_site_def)

subsection \<open>Same-domain scoping\<close>

lemma load_iter_same_host:
  assumes "same_host w s"
  shows "case load_iter w s of
           Continue s' \<Rightarrow> same_host w s'
         | Return docs L \<Rightarrow>
             (\<forall>doc \<in> set docs. netloc w (metadata_source doc) = base_domain (self s))
         | Raise e L \<Rightarrow> True"
proof (cases "queue s")
  case Nil
  with assms show ?thesis by (simp add: load_iter_def same_host_def)
next
  case (Cons a rest)
  obtain u d where a: "a = (u, d)" by (cases a)
  have u: "netloc w u = base_domain (self s)"
    and rest: "\<forall>(u, d) \<in> set rest. netloc w u = base_domain (self s)"
    and docs: "\<forall>doc \<in> set (all_docs s). netloc w (metadata_source doc) = base_domain (self s)"
    using assms Cons a by (auto simp: same_host_def)
  obtain r L1 where sp: "scrape_page w (self s) u = (r, L1)"
    by (cases "scrape_page w (self s) u")
  note f = scrape_page_fields(3) [OF sp]
  show ?thesis
  proof (cases r)
    case EmptyList
    with Cons a sp rest docs show ?thesis
      by (auto simp: load_iter_def same_host_def)
  next
    case (DocsLinks page_docs new_links)
    with scrape_page_result [of w "self s" u page_docs new_links L1] sp
    have "\<forall>l \<in> set new_links. netloc w l = base_domain (self s)"
      and "\<forall>doc \<in> set page_docs. metadata_source doc = u"
      by simp_all
    with Cons a sp rest docs u f DocsLinks show ?thesis
      by (auto simp: load_iter_def same_host_def)
  qed
qed

lemma load_steps_same_host:
  assumes "same_host w s"
  shows "case load_steps w n s of
           Continue s' \<Rightarrow> same_host w s'
         | Return docs L \<Rightarrow>
             (\<forall>doc \<in> set docs. netloc w (metadata_source doc) = base_domain (self s))
         | Raise e L \<Rightarrow> True"
  using assms
proof (induction n arbitrary: s)
  case 0
  then show ?case by simp
next
  case (Suc n)
  show ?case
  proof (cases "load_iter w s")
    case (Continue s')
    with load_iter_same_host [OF Suc.prems] have "same_host w s'" by simp
    from Suc.IH [OF this] load_iter_loader(3) [where w = w and s = s] Continue
    show ?thesis by (auto split: outcome.splits)
  next
    case (Return docs L)
    with load_iter_same_host [OF Suc.prems] show ?thesis by simp
  next
    case (Raise e L)
    then show ?thesis by simp
  qed
qed

text \<open>
  Claim C8. Every document in the list returned by \<^verbatim>\<open>load\<close> has a source URL whose
  host is the host of the seed URL, and every URL in the frontier, at every test of the
  loop condition, has the seed's host.
\<close>

theorem load_documents_same_host:
  "(load w (WebLoader_init w url md mp) = (Inr docs, L') \<and> doc \<in> set docs
      \<longrightarrow> netloc w (metadata_source doc) = netloc w url)
   \<and> (load_steps w n (load_start (WebLoader_init w url md mp)) = Continue s
        \<and> (u, d) \<in> set (queue s)
      \<longrightarrow> netloc w u = netloc w url)"
proof -
  let ?L = "WebLoader_init w url md mp"
  let ?s0 = "load_start ?L"
  have init: "same_host w ?s0" and bd: "base_domain (self ?s0) = netloc w url"
    by (simp_all add: same_host_def load_start_def WebLoader_init_def)
  have docs: "netloc w (metadata_source doc) = netloc w url"
    if "load w ?L = (Inr docs, L')" "doc \<in> set docs"
  proof -
    obtain k where k: "case load_steps w k ?s0 of
          Return docs L \<Rightarrow> load_loop w ?s0 = (Inr docs, L)
        | Raise e L \<Rightarrow> load_loop w ?s0 = (Inl e, L)
        | Continue s' \<Rightarrow> False"
      using load_loop_steps [of w ?s0] ..
    with that(1) have "load_steps w k ?s0 = Return docs L'"
      by (cases "load_steps w k ?s0") (simp_all add: load_def)
    with load_steps_same_host [OF init, of k] that(2) bd show ?thesis by simp
  qed
  have frontier: "netloc w u = netloc w url"
    if "load_steps w n ?s0 = Continue s" "(u, d) \<in> set (queue s)"
  proof -
    from load_steps_same_host [OF init, of n] that(1) have "same_host w s" by simp
    moreover have "base_domain (self s) = netloc w url"
      using load_steps_base_domain [of w n ?s0] that(1) bd by simp
    ultimately show ?thesis using that(2) by (auto simp: same_host_def)
  qed
  from docs frontier show ?thesis by blast
qed

theorem load_documents_same_host_witness:
  "load good_site (WebLoader_init good_site ''a.com/'' 1 5)
     = (Inr [\<lparr>page_content = ''home'', metadata_source = ''a.com/'',
               metadata_title = Some ''No Title''\<rparr>,
             \<lparr>page_content = ''b'', metadata_source = ''a.com/b'',
               metadata_title = Some ''B''\<rparr>],
        \<lparr>start_url = ''a.com/'', max_depth = 1, max_pages = 5,
          visited = {|''a.com/b'', ''a.com/''|}, base_domain = ''a.com'',
          requested = [''a.com/'', ''a.com/b'']\<rparr>)
   \<and> netloc good_site ''a.com/b'' = netloc good_site ''a.com/''
   \<and> load_steps good_site 1 (load_start (WebLoader_init good_site ''a.com/'' 1 5))
       = Continue good_site_after_seed
   \<and> (''a.com/b'', 1) \<in> set (queue good_site_after_seed)"
proof -
  have run: "load good_site (WebLoader_init good_site ''a.com/'' 1 5)
     = (Inr [\<lparr>page_content = ''home'', metadata_source = ''a.com/'',
               metadata_title = Some ''No Title''\<rparr>,
             \<lparr>page_content = ''b'', metadata_source = ''a.com/b'',
               metadata_title = Some ''B''\<rparr>],
        \<lparr>start_url = ''a.com/'', max_depth = 1, max_pages = 5,
          visited = {|''a.com/b'', ''a.com/''|}, base_domain = ''a.com'',
          requested = [''a.com/'', ''a.com/b'']\<rparr>)"
    by (simp add: crawl_eval good_site_def)
  have step: "load_steps good_site 1 (load_start (WebLoader_init good_site ''a.com/'' 1 5))
      = Continue good_site_after_seed"
    by (simp add: crawl_eval good_site_def good_site_after_seed_def)
  have q: "(''a.com/b'', 1) \<in> set (queue good_site_after_seed)"
    by (simp add: good_site_after_seed_def)
  from load_documents_same_host
    [of good_site "''a.com/''" 1 5 _ _
        "\<lparr>page_content = ''b'', metadata_source = ''a.com/b'', metadata_title = Some ''B''\<rparr>"
        1 good_site_after_seed "''a.com/b''" 1]
    run step q
  show ?thesis by simp
qed

section \<open>Properties of the graph builder\<close>

subsection \<open>The examples, evaluated\<close>

lemmas string_eval =
  demo_strip_def demo_isspace_def demo_upper_def demo_upper_char_def replace_char_def

lemma label_works_for:
  "replace_char (CHR '' '') (CHR ''_'') (demo_upper ''works for'') = ''WORKS_FOR''"
  by code_simp

lemma rel_label_works_for: "rel_label demo_builder ''works for'' = ''WORKS_FOR''"
  by (simp add: rel_label_def demo_builder_def label_works_for)

lemma label_co_founder:
  "replace_char (CHR '' '') (CHR ''_'') (demo_upper ''co-founder of'') = ''CO-FOUNDER_OF''"
  by code_simp

lemma strip_examples:
  "demo_strip '' Alice'' = ''Alice''" "demo_strip ''Alice '' = ''Alice''"
  "demo_strip ''Acme'' = ''Acme''" "demo_strip ''Bob'' = ''Bob''"
  "demo_strip '' Acme '' = ''Acme''" "demo_strip ''Nobody'' = ''Nobody''"
  by code_simp+

lemmas builder_eval =
  ingest_chunk_def ingest_graph_data_def graph_query_def Let_def demo_builder_def
  empty_store_def alice_def acme_def works_for_def alice_doc_def bob_doc_def garbled_doc_def
  rel_label_def label_works_for label_co_founder strip_examples

lemma alice_doc_ingested:
  "ingest_documents demo_builder empty_store [alice_doc] =
     ([Inr ()],
      \<lparr>entities = [''Alice'' \<mapsto> ''Person'', ''Acme'' \<mapsto> ''Organization''],
       edges = [(''Alice'', ''Acme'', ''WORKS_FOR'') \<mapsto> []],
       issued = [MergeEntity ''Alice'' ''Person'', MergeEntity ''Acme'' ''Organization'',
                 MergeRelationship ''Alice'' ''Acme'' ''WORKS_FOR'' []]\<rparr>)"
  by (simp add: builder_eval)

lemma bob_doc_fails:
  "ingest_chunk demo_builder empty_store bob_doc =
     (Inl GraphError,
      \<lparr>entities = [''Bob'' \<mapsto> ''Person''], edges = Map.empty,
       issued = [MergeEntity ''Bob'' ''Person'',
                 MergeRelationship ''Bob'' ''Acme'' ''CO-FOUNDER_OF'' []]\<rparr>)"
  by (simp add: builder_eval)

subsection \<open>Dropped relationships\<close>

lemma ingest_relationships_skip:
  assumes "\<not> truthy (rel_target r)"
  shows "ingest_relationships env g (pre @ r # post) = ingest_relationships env g (pre @ post)"
  using assms
  by (induction pre arbitrary: g) (auto simp: Let_def split: prod.splits sum.splits)

lemma ingest_graph_data_alt:
  "ingest_graph_data env g data =
     (case ingest_nodes env g (nodes data) of
        (Inl e, g1) \<Rightarrow> (Inl e, g1)
      | (Inr u, g1) \<Rightarrow> ingest_relationships env g1 (relationships data))"
proof -
  have n: "(if nodes data \<noteq> [] then ingest_nodes env g (nodes data) else (Inr (), g))
         = ingest_nodes env g (nodes data)"
    by (cases "nodes data") simp_all
  have r: "(if relationships data \<noteq> [] then ingest_relationships env g1 (relationships data)
            else (Inr (), g1))
         = ingest_relationships env g1 (relationships data)" for g1
    by (cases "relationships data") simp_all
  show ?thesis unfolding ingest_graph_data_def n r ..
qed

lemma ingest_graph_data_skip:
  assumes "\<not> truthy (rel_target r)"
  shows "ingest_graph_data env g \<lparr>nodes = ns, relationships = pre @ r # post\<rparr>
       = ingest_graph_data env g \<lparr>nodes = ns, relationships = pre @ post\<rparr>"
  unfolding ingest_graph_data_alt
  by (simp only: graph_data.simps ingest_relationships_skip [OF assms])

text \<open>
  Claim C4. A relationship without a target is dropped: the result and the store
  (statements received included) are those of the same extraction result without that
  relationship, so the other nodes and relationships are merged as usual; on its own it
  sends nothing to the store and raises nothing.
\<close>

theorem absent_target_dropped:
  assumes "rel_target r = None"
  shows "ingest_graph_data env g \<lparr>nodes = ns, relationships = pre @ r # post\<rparr>
           = ingest_graph_data env g \<lparr>nodes = ns, relationships = pre @ post\<rparr>
       \<and> ingest_relationships env g [r] = (Inr (), g)"
  using assms ingest_graph_data_skip [of r env g ns pre post] by simp

theorem absent_target_dropped_witness:
  "rel_target no_target = None
   \<and> ingest_graph_data demo_builder empty_store
        \<lparr>nodes = [alice, acme], relationships = [] @ no_target # [works_for]\<rparr>
     = ingest_graph_data demo_builder empty_store
        \<lparr>nodes = [alice, acme], relationships = [] @ [works_for]\<rparr>
   \<and> ingest_relationships demo_builder empty_store [no_target] = (Inr (), empty_store)
   \<and> issued (snd (ingest_graph_data demo_builder empty_store
        \<lparr>nodes = [alice, acme], relationships = [] @ no_target # [works_for]\<rparr>))
     = [MergeEntity ''Alice'' ''Person'', MergeEntity ''Acme'' ''Organization'',
        MergeRelationship ''Alice'' ''Acme'' ''WORKS_FOR'' []]"
proof -
  have h: "rel_target no_target = None"
    by (simp add: no_target_def)
  have i: "issued (snd (ingest_graph_data demo_builder empty_store
        \<lparr>nodes = [alice, acme], relationships = [] @ no_target # [works_for]\<rparr>))
     = [MergeEntity ''Alice'' ''Person'', MergeEntity ''Acme'' ''Organization'',
        MergeRelationship ''Alice'' ''Acme'' ''WORKS_FOR'' []]"
    by (simp add: builder_eval no_target_def)
  from h i absent_target_dropped [OF h, of demo_builder empty_store "[alice, acme]" "[]" "[works_for]"]
  show ?thesis by blast
qed

text \<open>
  Claim C10. A relationship whose target is the empty string is treated exactly like
  one whose target is absent: the result and the store are the same with the target
  replaced by \<^verbatim>\<open>None\<close>, the same as without the relationship, and on its own it sends
  nothing to the store.
\<close>

theorem empty_target_dropped:
  assumes "rel_target r = Some []"
  shows "ingest_graph_data env g \<lparr>nodes = ns, relationships = pre @ r # post\<rparr>
           = ingest_graph_data env g
               \<lparr>nodes = ns, relationships = pre @ r\<lparr>rel_target := None\<rparr> # post\<rparr>
       \<and> ingest_graph_data env g \<lparr>nodes = ns, relationships = pre @ r # post\<rparr>
           = ingest_graph_data env g \<lparr>nodes = ns, relationships = pre @ post\<rparr>
       \<and> ingest_relationships env g [r] = (Inr (), g)"
  using assms ingest_graph_data_skip [of r env g ns pre post]
    ingest_graph_data_skip [of "r\<lparr>rel_target := None\<rparr>" env g ns pre post]
  by simp

theorem empty_target_dropped_witness:
  "rel_target empty_target = Some []
   \<and> ingest_graph_data demo_builder empty_store
        \<lparr>nodes = [alice, acme], relationships = [works_for] @ empty_target # []\<rparr>
     = ingest_graph_data demo_builder empty_store
        \<lparr>nodes = [alice, acme],
          relationships = [works_for] @ empty_target\<lparr>rel_target := None\<rparr> # []\<rparr>
   \<and> ingest_graph_data demo_builder empty_store
        \<lparr>nodes = [alice, acme], relationships = [works_for] @ empty_target # []\<rparr>
     = ingest_graph_data demo_builder empty_store
        \<lparr>nodes = [alice, acme], relationships = [works_for] @ []\<rparr>
   \<and> ingest_relationships demo_builder empty_store [empty_target] = (Inr (), empty_store)"
proof -
  have h: "rel_target empty_target = Some []"
    by (simp add: empty_target_def)
  from h empty_target_dropped [OF h, of demo_builder empty_store "[alice, acme]" "[works_for]" "[]"]
  show ?thesis by blast
qed

text \<open>
  The test is on the raw target: any non-empty target, all-whitespace ones included,
  gets its statement, with trimmed ids and the normalised label.
\<close>

lemma truthy_target_sent:
  assumes "rel_target r = Some tgt" and "tgt \<noteq> []"
  shows "issued (snd (ingest_relationships env g [r]))
       = issued g @
         [MergeRelationship (str_strip env (rel_source r)) (str_strip env tgt) (rel_label env (rel_type r))
            (case rel_description r of None \<Rightarrow> [] | Some x \<Rightarrow> x)]"
proof -
  have "(if truthy (rel_description r) then the (rel_description r) else [])
      = (case rel_description r of None \<Rightarrow> [] | Some x \<Rightarrow> x)"
    by (cases "rel_description r") auto
  with assms show ?thesis
    by (cases "rejects env
          (MergeRelationship (str_strip env (rel_source r)) (str_strip env tgt) (rel_label env (rel_type r))
            (case rel_description r of None \<Rightarrow> [] | Some x \<Rightarrow> x))";
        cases "str_strip env (rel_source r) \<in> dom (entities g) \<and> str_strip env tgt \<in> dom (entities g)")
      (simp_all add: graph_query_def Let_def)
qed

subsection \<open>What a statement does to the store\<close>

lemma graph_query_store:
  assumes "graph_query env g q = (r, g1)"
  shows "issued g1 = issued g @ [q]"
    and "r = (if rejects env q then Inl GraphError else Inr ())"
    and "rejects env q \<Longrightarrow> entities g1 = entities g \<and> edges g1 = edges g"
    and "\<not> rejects env q \<Longrightarrow>
           entities g1 = entities (run_cypher g q) \<and> edges g1 = edges (run_cypher g q)"
  using assms by (cases q; auto simp: graph_query_def Let_def split: if_splits)+

lemma ingest_nodes_edges:
  "edges (snd (ingest_nodes env g ns)) = edges g"
proof (induction ns arbitrary: g)
  case (Cons n ns)
  let ?q = "MergeEntity (str_strip env (node_id n)) (node_type n)"
  obtain r g1 where q: "graph_query env g ?q = (r, g1)" by (cases "graph_query env g ?q")
  have "edges g1 = edges g"
    using graph_query_store(3,4) [OF q] by (cases "rejects env ?q") simp_all
  with Cons [of g1] q show ?case by (cases r) (simp_all add: Let_def)
qed simp

subsection \<open>The normalised label\<close>

lemma rel_label_no_space: "CHR '' '' \<notin> set (rel_label env t)"
  by (auto simp: rel_label_def replace_char_def)

subsection \<open>The effect of ingestion, independent of the starting store\<close>

lemma ingest_nodes_effect:
  "\<exists>r M Q. \<forall>g. fst (ingest_nodes env g ns) = r
      \<and> entities (snd (ingest_nodes env g ns)) = entities g ++ M
      \<and> edges (snd (ingest_nodes env g ns)) = edges g
      \<and> issued (snd (ingest_nodes env g ns)) = issued g @ Q"
proof (induction ns)
  case Nil
  show ?case
    by (rule exI [of _ "Inr ()"], rule exI [of _ Map.empty], rule exI [of _ "[]"]) simp
next
  case (Cons n ns)
  then obtain r M Q where IH: "\<And>g. fst (ingest_nodes env g ns) = r"
      "\<And>g. entities (snd (ingest_nodes env g ns)) = entities g ++ M"
      "\<And>g. edges (snd (ingest_nodes env g ns)) = edges g"
      "\<And>g. issued (snd (ingest_nodes env g ns)) = issued g @ Q"
    by blast
  let ?i = "str_strip env (node_id n)"
  let ?q = "MergeEntity ?i (node_type n)"
  show ?case
  proof (cases "rejects env ?q")
    case True
    then show ?thesis
      by (intro exI [of _ "Inl GraphError"] exI [of _ Map.empty] exI [of _ "[?q]"])
        (simp add: graph_query_def Let_def)
  next
    case False
    have "(entities g)(?i \<mapsto> node_type n) ++ M = entities g ++ ([?i \<mapsto> node_type n] ++ M)" for g
      by (simp add: map_add_assoc [symmetric])
    with False show ?thesis
      by (intro exI [of _ r] exI [of _ "[?i \<mapsto> node_type n] ++ M"] exI [of _ "?q # Q"])
        (simp add: graph_query_def Let_def IH)
  qed
qed

lemma ingest_relationships_effect:
  "\<exists>r E Q. \<forall>g. fst (ingest_relationships env g rels) = r
      \<and> entities (snd (ingest_relationships env g rels)) = entities g
      \<and> edges (snd (ingest_relationships env g rels)) = edges g ++ E (dom (entities g))
      \<and> issued (snd (ingest_relationships env g rels)) = issued g @ Q"
proof (induction rels)
  case Nil
  show ?case
    by (rule exI [of _ "Inr ()"], rule exI [of _ "\<lambda>D. Map.empty"], rule exI [of _ "[]"]) simp
next
  case (Cons rel rels)
  then obtain r E Q where IH: "\<And>g. fst (ingest_relationships env g rels) = r"
      "\<And>g. entities (snd (ingest_relationships env g rels)) = entities g"
      "\<And>g. edges (snd (ingest_relationships env g rels)) = edges g ++ E (dom (entities g))"
      "\<And>g. issued (snd (ingest_relationships env g rels)) = issued g @ Q"
    by blast
  let ?s = "str_strip env (rel_source rel)"
  let ?t = "str_strip env (the (rel_target rel))"
  let ?l = "rel_label env (rel_type rel)"
  let ?d = "if truthy (rel_description rel) then the (rel_description rel) else []"
  let ?q = "MergeRelationship ?s ?t ?l ?d"
  consider (skip) "\<not> truthy (rel_target rel)"
    | (rejected) "truthy (rel_target rel)" "rejects env ?q"
    | (merged) "truthy (rel_target rel)" "\<not> rejects env ?q"
    by blast
  then show ?case
  proof cases
    case skip
    then show ?thesis
      by (intro exI [of _ r] exI [of _ E] exI [of _ Q]) (simp add: IH)
  next
    case rejected
    then show ?thesis
      by (intro exI [of _ "Inl GraphError"] exI [of _ "\<lambda>D. Map.empty"] exI [of _ "[?q]"])
        (simp add: graph_query_def Let_def)
  next
    case merged
    let ?E = "\<lambda>D. (if ?s \<in> D \<and> ?t \<in> D then [(?s, ?t, ?l) \<mapsto> ?d] else Map.empty) ++ E D"
    have "(edges g)((?s, ?t, ?l) \<mapsto> ?d) ++ m = edges g ++ ([(?s, ?t, ?l) \<mapsto> ?d] ++ m)" for g m
      by (simp add: map_add_assoc [symmetric])
    with merged show ?thesis
      by (intro exI [of _ r] exI [of _ ?E] exI [of _ "?q # Q"])
        (simp add: graph_query_def Let_def IH)
  qed
qed

lemma ingest_chunk_Some:
  assumes "extract_graph_data env (page_content doc) = Some data"
  shows "ingest_chunk env g doc =
      (case fst (ingest_nodes env g (nodes data)) of
         Inl e \<Rightarrow> (Inl e, snd (ingest_nodes env g (nodes data)))
       | Inr u \<Rightarrow> ingest_relationships env (snd (ingest_nodes env g (nodes data)))
                    (relationships data))"
  using assms by (simp add: ingest_chunk_def ingest_graph_data_alt split: prod.splits sum.splits)

lemma ingest_chunk_effect:
  "\<exists>r M E Q. \<forall>g. fst (ingest_chunk env g doc) = r
      \<and> entities (snd (ingest_chunk env g doc)) = entities g ++ M
      \<and> edges (snd (ingest_chunk env g doc)) = edges g ++ E (dom (entities g ++ M))
      \<and> issued (snd (ingest_chunk env g doc)) = issued g @ Q"
proof (cases "extract_graph_data env (page_content doc)")
  case None
  then show ?thesis
    by (intro exI [of _ "Inl ExtractionError"] exI [of _ Map.empty] exI [of _ "\<lambda>D. Map.empty"]
          exI [of _ "[]"])
      (simp add: ingest_chunk_def)
next
  case (Some data)
  obtain rn M Qn where N: "\<And>g. fst (ingest_nodes env g (nodes data)) = rn"
      "\<And>g. entities (snd (ingest_nodes env g (nodes data))) = entities g ++ M"
      "\<And>g. edges (snd (ingest_nodes env g (nodes data))) = edges g"
      "\<And>g. issued (snd (ingest_nodes env g (nodes data))) = issued g @ Qn"
    using ingest_nodes_effect [of env "nodes data"] by blast
  obtain rr E Qr where R: "\<And>g. fst (ingest_relationships env g (relationships data)) = rr"
      "\<And>g. entities (snd (ingest_relationships env g (relationships data))) = entities g"
      "\<And>g. edges (snd (ingest_relationships env g (relationships data)))
             = edges g ++ E (dom (entities g))"
      "\<And>g. issued (snd (ingest_relationships env g (relationships data))) = issued g @ Qr"
    using ingest_relationships_effect [of env "relationships data"] by blast
  note unfold = ingest_chunk_Some [OF Some]
  show ?thesis
  proof (cases rn)
    case (Inl e)
    then show ?thesis
      by (intro exI [of _ "Inl e"] exI [of _ M] exI [of _ "\<lambda>D. Map.empty"] exI [of _ Qn])
        (simp add: unfold N)
  next
    case (Inr u)
    then show ?thesis
      by (intro exI [of _ rr] exI [of _ M] exI [of _ E] exI [of _ "Qn @ Qr"])
        (simp add: unfold N R)
  qed
qed

lemma map_add_twice: "m ++ n ++ n = m ++ n"
  by (rule ext) (simp add: map_add_def split: option.splits)

lemma ingest_documents_Cons:
  "ingest_documents env g (doc # docs) =
     (fst (ingest_chunk env g doc) #
        fst (ingest_documents env (snd (ingest_chunk env g doc)) docs),
      snd (ingest_documents env (snd (ingest_chunk env g doc)) docs))"
  by (simp split: prod.splits)

lemma ingest_documents_single:
  "ingest_documents env g [doc] = ([fst (ingest_chunk env g doc)], snd (ingest_chunk env g doc))"
  by (simp split: prod.splits)

text \<open>
  Claim C3. Ingesting one document a second time leaves the node records and the edge
  records of the store exactly as they were after the first time (the same records, so
  the same counts), from whatever store the first ingestion started.
\<close>

theorem ingest_twice_same_graph:
  "entities (snd (ingest_documents env (snd (ingest_documents env g [doc])) [doc]))
     = entities (snd (ingest_documents env g [doc]))
   \<and> edges (snd (ingest_documents env (snd (ingest_documents env g [doc])) [doc]))
     = edges (snd (ingest_documents env g [doc]))
   \<and> card (dom (entities (snd (ingest_documents env (snd (ingest_documents env g [doc])) [doc]))))
     = card (dom (entities (snd (ingest_documents env g [doc]))))
   \<and> card (dom (edges (snd (ingest_documents env (snd (ingest_documents env g [doc])) [doc]))))
     = card (dom (edges (snd (ingest_documents env g [doc]))))"
proof -
  obtain r M E Q where C:
      "\<And>g. entities (snd (ingest_chunk env g doc)) = entities g ++ M"
      "\<And>g. edges (snd (ingest_chunk env g doc)) = edges g ++ E (dom (entities g ++ M))"
    using ingest_chunk_effect [of env doc] by blast
  let ?g1 = "snd (ingest_chunk env g doc)"
  have "entities (snd (ingest_chunk env ?g1 doc)) = entities ?g1"
    by (simp add: C map_add_twice)
  moreover have "edges (snd (ingest_chunk env ?g1 doc)) = edges ?g1"
    by (simp add: C map_add_twice)
  ultimately show ?thesis by (simp only: ingest_documents_single snd_conv) 
qed

subsection \<open>Isolation of a failing document\<close>

lemma ingest_documents_append:
  "ingest_documents env g (xs @ ys) =
     (fst (ingest_documents env g xs) @
        fst (ingest_documents env (snd (ingest_documents env g xs)) ys),
      snd (ingest_documents env (snd (ingest_documents env g xs)) ys))"
  by (induction xs arbitrary: g) (simp_all add: ingest_documents_Cons del: ingest_documents.simps(2))

lemma ingest_chunk_independent:
  "fst (ingest_chunk env g doc) = fst (ingest_chunk env g' doc)"
  "issued (snd (ingest_chunk env g doc)) = issued g @ chunk_queries env doc"
proof -
  obtain r M E Q where C: "\<And>g. fst (ingest_chunk env g doc) = r"
      "\<And>g. issued (snd (ingest_chunk env g doc)) = issued g @ Q"
    using ingest_chunk_effect [of env doc] by blast
  show "fst (ingest_chunk env g doc) = fst (ingest_chunk env g' doc)"
    by (simp add: C)
  show "issued (snd (ingest_chunk env g doc)) = issued g @ chunk_queries env doc"
    by (simp add: C chunk_queries_def empty_store_def)
qed

lemma ingest_documents_independent:
  "fst (ingest_documents env g docs) = map (\<lambda>doc. fst (ingest_chunk env empty_store doc)) docs"
  "issued (snd (ingest_documents env g docs)) = issued g @ concat (map (chunk_queries env) docs)"
proof (induction docs arbitrary: g)
  case Nil
  {
    case 1 show ?case by simp
  next
    case 2 show ?case by simp
  }
next
  case (Cons doc docs)
  {
    case 1
    show ?case
      using Cons(1) [of "snd (ingest_chunk env g doc)"]
        ingest_chunk_independent(1) [of env g doc empty_store]
      by (simp add: ingest_documents_Cons del: ingest_documents.simps)
  next
    case 2
    show ?case
      using Cons(2) [of "snd (ingest_chunk env g doc)"]
        ingest_chunk_independent(2) [of env g doc]
      by (simp add: ingest_documents_Cons del: ingest_documents.simps)
  }
qed

text \<open>
  Claim C2. When the \<^verbatim>\<open>try\<close> body raises on one document (in the extraction call or in
  a store operation), every other document is still processed: its printed outcome is
  the one of the run without the failing document, the failure is recorded at the
  failing document's position, and the statements sent to the store for the other
  documents are exactly those of the run without the failing document, in the same
  order. When it is the extraction call that raises, the store ends exactly as in the run
  without the failing document.
\<close>

theorem failing_segment_isolated:
  assumes "fst (ingest_chunk env g0 bad) = Inl e"
  shows "fst (ingest_documents env g (pre @ bad # post))
           = take (length pre) (fst (ingest_documents env g (pre @ post))) @ Inl e #
             drop (length pre) (fst (ingest_documents env g (pre @ post)))
       \<and> length (fst (ingest_documents env g (pre @ post))) = length pre + length post
       \<and> issued (snd (ingest_documents env g (pre @ bad # post)))
           = issued g @ concat (map (chunk_queries env) pre) @ chunk_queries env bad @
             concat (map (chunk_queries env) post)
       \<and> issued (snd (ingest_documents env g (pre @ post)))
           = issued g @ concat (map (chunk_queries env) pre) @
             concat (map (chunk_queries env) post)
       \<and> (extract_graph_data env (page_content bad) = None \<longrightarrow>
            snd (ingest_documents env g (pre @ bad # post))
              = snd (ingest_documents env g (pre @ post)))"
proof -
  have bad: "fst (ingest_chunk env empty_store bad) = Inl e"
    using assms ingest_chunk_independent(1) [of env empty_store bad g0] by simp
  have "snd (ingest_documents env g (pre @ bad # post))
          = snd (ingest_documents env g (pre @ post))"
    if "extract_graph_data env (page_content bad) = None"
  proof -
    have "ingest_chunk env g1 bad = (Inl ExtractionError, g1)" for g1
      using that by (simp add: ingest_chunk_def)
    then show ?thesis
      by (simp add: ingest_documents_append [of env g pre] ingest_documents_Cons
               del: ingest_documents.simps(2))
  qed
  then show ?thesis
    using bad by (simp add: ingest_documents_independent)
qed

subsection \<open>Where a written edge comes from\<close>

lemma ingest_relationships_new_edge:
  assumes "edges (snd (ingest_relationships env g rels)) key = Some d"
      and "edges g key \<noteq> Some d"
  shows "\<exists>rel \<in> set rels. \<exists>tgt. rel_target rel = Some tgt \<and> tgt \<noteq> []
           \<and> key = (str_strip env (rel_source rel), str_strip env tgt, rel_label env (rel_type rel))
           \<and> d = (case rel_description rel of None \<Rightarrow> [] | Some x \<Rightarrow> x)"
  using assms
proof (induction rels arbitrary: g)
  case Nil
  then show ?case by simp
next
  case (Cons rel rels)
  show ?case
  proof (cases "truthy (rel_target rel)")
    case False
    with Cons.prems have "edges (snd (ingest_relationships env g rels)) key = Some d"
      by simp
    from Cons.IH [OF this Cons.prems(2)] show ?thesis by auto
  next
    case True
    then obtain tgt where tgt: "rel_target rel = Some tgt" "tgt \<noteq> []"
      by (cases "rel_target rel") auto
    let ?k = "(str_strip env (rel_source rel), str_strip env tgt, rel_label env (rel_type rel))"
    let ?d = "case rel_description rel of None \<Rightarrow> [] | Some x \<Rightarrow> x"
    have d: "(if truthy (rel_description rel) then the (rel_description rel) else []) = ?d"
      by (cases "rel_description rel") auto
    let ?q = "MergeRelationship (str_strip env (rel_source rel)) (str_strip env tgt) (rel_label env (rel_type rel)) ?d"
    obtain r g1 where q: "graph_query env g ?q = (r, g1)" by (cases "graph_query env g ?q")
    have step: "edges g1 = edges g \<or> edges g1 = (edges g)(?k \<mapsto> ?d)"
      using graph_query_store(3,4) [OF q] by (cases "rejects env ?q") auto
    show ?thesis
    proof (cases "edges g1 key = Some d")
      case True
      with step Cons.prems(2) have "key = ?k \<and> d = ?d"
        by (auto split: if_splits)
      with tgt show ?thesis by auto
    next
      case False
      have "r \<noteq> Inl e" for e
      proof
        assume "r = Inl e"
        with q tgt True d have "snd (ingest_relationships env g (rel # rels)) = g1"
          by (simp add: Let_def)
        with Cons.prems(1) False show False by simp
      qed
      then have "r = Inr ()" by (cases r) auto
      with q tgt True d have "snd (ingest_relationships env g (rel # rels))
          = snd (ingest_relationships env g1 rels)"
        by (simp add: Let_def)
      with Cons.prems(1) have "edges (snd (ingest_relationships env g1 rels)) key = Some d"
        by simp
      from Cons.IH [OF this False] show ?thesis by auto
    qed
  qed
qed

lemma ingest_chunk_new_edge:
  assumes "edges (snd (ingest_chunk env g doc)) key = Some d"
      and "edges g key \<noteq> Some d"
  shows "\<exists>data. extract_graph_data env (page_content doc) = Some data
           \<and> (\<exists>rel \<in> set (relationships data). \<exists>tgt. rel_target rel = Some tgt \<and> tgt \<noteq> []
                 \<and> key = (str_strip env (rel_source rel), str_strip env tgt, rel_label env (rel_type rel))
                 \<and> d = (case rel_description rel of None \<Rightarrow> [] | Some x \<Rightarrow> x))"
proof (cases "extract_graph_data env (page_content doc)")
  case None
  with assms show ?thesis by (simp add: ingest_chunk_def)
next
  case (Some data)
  let ?n = "ingest_nodes env g (nodes data)"
  have e: "edges (snd ?n) = edges g" by (rule ingest_nodes_edges)
  show ?thesis
  proof (cases "fst ?n")
    case (Inl err)
    then have "snd (ingest_chunk env g doc) = snd ?n"
      by (simp add: ingest_chunk_Some [OF Some])
    with assms e show ?thesis by simp
  next
    case (Inr u)
    then have "snd (ingest_chunk env g doc)
        = snd (ingest_relationships env (snd ?n) (relationships data))"
      by (simp add: ingest_chunk_Some [OF Some])
    with assms e ingest_relationships_new_edge [of env "snd ?n" "relationships data" key d] Some
    show ?thesis by simp
  qed
qed

text \<open>
  Claim C5. Every edge record that ingestion writes (an edge with a description that the
  store did not hold before) comes from a relationship of some document's extraction
  result with a non-empty target: its source and target ids are the whitespace-trimmed
  ones (by \<^verbatim>\<open>str.strip\<close>), its type is the supplied type uppercased (by \<^verbatim>\<open>str.upper\<close>)
  with every space then replaced by an underscore, so that no space is left in it, and
  its description is the supplied one, or the empty string when none was supplied.
\<close>

theorem persisted_relationship_normalized:
  assumes "edges (snd (ingest_documents env g docs)) (s, t, l) = Some d"
      and "edges g (s, t, l) \<noteq> Some d"
  shows "(\<exists>doc \<in> set docs. \<exists>data. extract_graph_data env (page_content doc) = Some data
           \<and> (\<exists>rel \<in> set (relationships data). \<exists>tgt. rel_target rel = Some tgt \<and> tgt \<noteq> []
                 \<and> s = str_strip env (rel_source rel) \<and> t = str_strip env tgt
                 \<and> l = replace_char (CHR '' '') (CHR ''_'') (str_upper env (rel_type rel))
                 \<and> d = (case rel_description rel of None \<Rightarrow> [] | Some x \<Rightarrow> x)))
       \<and> CHR '' '' \<notin> set l"
proof -
  have main: "\<exists>doc \<in> set docs. \<exists>data. extract_graph_data env (page_content doc) = Some data
           \<and> (\<exists>rel \<in> set (relationships data). \<exists>tgt. rel_target rel = Some tgt \<and> tgt \<noteq> []
                 \<and> (s, t, l) = (str_strip env (rel_source rel), str_strip env tgt, rel_label env (rel_type rel))
                 \<and> d = (case rel_description rel of None \<Rightarrow> [] | Some x \<Rightarrow> x))"
    using assms
  proof (induction docs arbitrary: g)
    case Nil
    then show ?case by simp
  next
    case (Cons doc docs)
    let ?g1 = "snd (ingest_chunk env g doc)"
    from Cons.prems(1) have later: "edges (snd (ingest_documents env ?g1 docs)) (s, t, l) = Some d"
      by (simp add: ingest_documents_Cons del: ingest_documents.simps(2))
    show ?case
    proof (cases "edges ?g1 (s, t, l) = Some d")
      case True
      from ingest_chunk_new_edge [OF True Cons.prems(2)] show ?thesis by auto
    next
      case False
      from Cons.IH [OF later False] show ?thesis by auto
    qed
  qed
  from main have "\<exists>ty. l = rel_label env ty" by blast
  then obtain ty where "l = rel_label env ty" ..
  then have "CHR '' '' \<notin> set l"
    by (simp add: rel_label_no_space)
  with main show ?thesis by (simp add: rel_label_def)
qed

theorem ingest_twice_same_graph_witness:
  "entities (snd (ingest_documents demo_builder
       (snd (ingest_documents demo_builder empty_store [alice_doc])) [alice_doc]))
     = entities (snd (ingest_documents demo_builder empty_store [alice_doc]))
   \<and> edges (snd (ingest_documents demo_builder
       (snd (ingest_documents demo_builder empty_store [alice_doc])) [alice_doc]))
     = edges (snd (ingest_documents demo_builder empty_store [alice_doc]))
   \<and> card (dom (entities (snd (ingest_documents demo_builder
       (snd (ingest_documents demo_builder empty_store [alice_doc])) [alice_doc]))))
     = card (dom (entities (snd (ingest_documents demo_builder empty_store [alice_doc]))))
   \<and> card (dom (edges (snd (ingest_documents demo_builder
       (snd (ingest_documents demo_builder empty_store [alice_doc])) [alice_doc]))))
     = card (dom (edges (snd (ingest_documents demo_builder empty_store [alice_doc]))))
   \<and> edges (snd (ingest_documents demo_builder empty_store [alice_doc]))
       (''Alice'', ''Acme'', ''WORKS_FOR'') = Some []"
proof -
  have "edges (snd (ingest_documents demo_builder empty_store [alice_doc]))
       (''Alice'', ''Acme'', ''WORKS_FOR'') = Some []"
    unfolding alice_doc_ingested by simp
  with ingest_twice_same_graph [of demo_builder empty_store alice_doc]
  show ?thesis by blast
qed

theorem persisted_relationship_normalized_witness:
  "edges (snd (ingest_documents demo_builder empty_store [alice_doc]))
       (''Alice'', ''Acme'', ''WORKS_FOR'') = Some []
   \<and> edges empty_store (''Alice'', ''Acme'', ''WORKS_FOR'') \<noteq> Some []
   \<and> (\<exists>doc \<in> set [alice_doc]. \<exists>data.
         extract_graph_data demo_builder (page_content doc) = Some data
         \<and> (\<exists>rel \<in> set (relationships data). \<exists>tgt. rel_target rel = Some tgt \<and> tgt \<noteq> []
              \<and> ''Alice'' = str_strip demo_builder (rel_source rel)
              \<and> ''Acme'' = str_strip demo_builder tgt
              \<and> ''WORKS_FOR''
                  = replace_char (CHR '' '') (CHR ''_'') (str_upper demo_builder (rel_type rel))
              \<and> [] = (case rel_description rel of None \<Rightarrow> [] | Some x \<Rightarrow> x)))
   \<and> CHR '' '' \<notin> set ''WORKS_FOR''"
proof -
  have a: "edges (snd (ingest_documents demo_builder empty_store [alice_doc]))
       (''Alice'', ''Acme'', ''WORKS_FOR'') = Some []"
    unfolding alice_doc_ingested by simp
  have b: "edges empty_store (''Alice'', ''Acme'', ''WORKS_FOR'') \<noteq> Some []"
    by (simp add: empty_store_def)
  from a b persisted_relationship_normalized [OF a b] show ?thesis by blast
qed

theorem failing_segment_isolated_witness:
  "fst (ingest_chunk demo_builder empty_store garbled_doc) = Inl ExtractionError
   \<and> extract_graph_data demo_builder (page_content garbled_doc) = None
   \<and> fst (ingest_documents demo_builder empty_store ([alice_doc] @ garbled_doc # [bob_doc]))
       = take (length [alice_doc])
           (fst (ingest_documents demo_builder empty_store ([alice_doc] @ [bob_doc]))) @
         Inl ExtractionError #
         drop (length [alice_doc])
           (fst (ingest_documents demo_builder empty_store ([alice_doc] @ [bob_doc])))
   \<and> issued (snd (ingest_documents demo_builder empty_store
                     ([alice_doc] @ garbled_doc # [bob_doc])))
       = issued empty_store @ concat (map (chunk_queries demo_builder) [alice_doc]) @
         chunk_queries demo_builder garbled_doc @
         concat (map (chunk_queries demo_builder) [bob_doc])
   \<and> snd (ingest_documents demo_builder empty_store ([alice_doc] @ garbled_doc # [bob_doc]))
       = snd (ingest_documents demo_builder empty_store ([alice_doc] @ [bob_doc]))
   \<and> fst (ingest_documents demo_builder empty_store ([alice_doc] @ garbled_doc # [bob_doc]))
       = [Inr (), Inl ExtractionError, Inl GraphError]"
proof -
  have a: "fst (ingest_chunk demo_builder empty_store garbled_doc) = Inl ExtractionError"
    by (simp add: builder_eval)
  have b: "extract_graph_data demo_builder (page_content garbled_doc) = None"
    by (simp add: builder_eval)
  have c: "fst (ingest_documents demo_builder empty_store ([alice_doc] @ garbled_doc # [bob_doc]))
       = [Inr (), Inl ExtractionError, Inl GraphError]"
    by (simp add: builder_eval)
  from a b c failing_segment_isolated [OF a, of empty_store "[alice_doc]" "[bob_doc]"]
  show ?thesis by blast
qed

section \<open>Properties of graph retrieval\<close>

text \<open>
  Claim C6. When the traversal query raises, \<^verbatim>\<open>get_graph_context\<close> returns the empty
  string.
\<close>

theorem graph_failure_gives_empty_context:
  assumes "entity_chain env query = Some out" and "traverse env (str_strip env out) = None"
  shows "get_graph_context env query = Inr []"
  using assms by (simp add: get_graph_context_def)

theorem graph_failure_gives_empty_context_witness:
  "entity_chain demo_rag ''Who?'' = Some ''Nobody''
   \<and> traverse demo_rag (str_strip demo_rag ''Nobody'') = None
   \<and> get_graph_context demo_rag ''Who?'' = Inr []"
proof -
  have e: "entity_chain demo_rag ''Who?'' = Some ''Nobody''"
    by (simp add: demo_rag_def)
  have t: "traverse demo_rag (str_strip demo_rag ''Nobody'') = None"
    by (simp add: demo_rag_def string_eval)
  from e t graph_failure_gives_empty_context [OF e t] show ?thesis by blast
qed

lemma render_fact_eq:
  "render_fact env r =
     row_source r @ '' '' @ row_rel_type r @ '' '' @ row_target r @
     (if \<exists>(k, v) \<in> set (row_target_props r). k \<noteq> ''id'' \<and> k \<noteq> ''type''
      then '' (Details: '' @
           str_dict env (filter (\<lambda>(k, v). k \<noteq> ''id'' \<and> k \<noteq> ''type'') (row_target_props r)) @ '')''
      else [])"
proof -
  let ?p = "\<lambda>(k, v). k \<notin> set [''id'', ''type'']"
  let ?q = "\<lambda>(k::string, v::'a). k \<noteq> ''id'' \<and> k \<noteq> ''type''"
  have pq: "?p = ?q" by auto
  have "filter ?q (row_target_props r) \<noteq> [] \<longleftrightarrow>
        (\<exists>(k, v) \<in> set (row_target_props r). k \<noteq> ''id'' \<and> k \<noteq> ''type'')"
    by (auto simp: filter_empty_conv)
  moreover have "row_target_props r = [] \<Longrightarrow> filter ?q (row_target_props r) = []"
    by simp
  ultimately show ?thesis
    unfolding render_fact_def Let_def pq by (auto simp del: filter.simps)
qed

text \<open>
  Claim C9. When the traversal succeeds, the graph context is the newline-joined list of
  the distinct fact strings of the rows, each once, in the order in which the set is
  enumerated; a row renders as source, type and target separated by single spaces,
  followed by the parenthesised details exactly when the target has a property other
  than \<^verbatim>\<open>id\<close> and \<^verbatim>\<open>type\<close>.
\<close>

theorem graph_context_facts:
  assumes "\<forall>xs. distinct (list_of_set env xs) \<and> set (list_of_set env xs) = set xs"
      and "entity_chain env query = Some out"
      and "traverse env (str_strip env out) = Some result"
  shows "(\<exists>facts. get_graph_context env query = Inr (join [CHR 0x0A] facts)
            \<and> distinct facts \<and> set facts = set (map (render_fact env) result))
       \<and> (\<forall>r \<in> set result.
            render_fact env r =
              row_source r @ '' '' @ row_rel_type r @ '' '' @ row_target r @
              (if \<exists>(k, v) \<in> set (row_target_props r). k \<noteq> ''id'' \<and> k \<noteq> ''type''
               then '' (Details: '' @
                    str_dict env
                      (filter (\<lambda>(k, v). k \<noteq> ''id'' \<and> k \<noteq> ''type'') (row_target_props r)) @
                    '')''
               else []))"
proof -
  let ?facts = "list_of_set env (map (render_fact env) result)"
  have "get_graph_context env query = Inr (join [CHR 0x0A] ?facts)"
    using assms(2,3) by (simp add: get_graph_context_def)
  moreover have "distinct ?facts" "set ?facts = set (map (render_fact env) result)"
    using assms(1) by blast+
  ultimately show ?thesis using render_fact_eq [of env] by blast
qed

lemma remdups_enumerates: "\<forall>xs. distinct (remdups xs) \<and> set (remdups xs) = set xs"
  by simp

theorem graph_context_facts_witness:
  "(\<forall>xs. distinct (list_of_set demo_rag xs) \<and> set (list_of_set demo_rag xs) = set xs)
   \<and> entity_chain demo_rag ''Who works for Acme?'' = Some '' Acme ''
   \<and> traverse demo_rag (str_strip demo_rag '' Acme '') = Some [alice_row, shirt_row, alice_row]
   \<and> (\<exists>facts. get_graph_context demo_rag ''Who works for Acme?'' = Inr (join [CHR 0x0A] facts)
         \<and> distinct facts
         \<and> set facts = set (map (render_fact demo_rag) [alice_row, shirt_row, alice_row]))
   \<and> render_fact demo_rag alice_row = ''Alice WORKS_FOR Acme''
   \<and> render_fact demo_rag shirt_row = ''Acme SELLS Shirt (Details: {price: 10})''
   \<and> get_graph_context demo_rag ''Who works for Acme?''
       = Inr (''Acme SELLS Shirt (Details: {price: 10})'' @ [CHR 0x0A] @ ''Alice WORKS_FOR Acme'')"
proof -
  have a: "\<forall>xs. distinct (list_of_set demo_rag xs) \<and> set (list_of_set demo_rag xs) = set xs"
    by (simp add: demo_rag_def)
  have b: "entity_chain demo_rag ''Who works for Acme?'' = Some '' Acme ''"
    by (simp add: demo_rag_def)
  have c: "traverse demo_rag (str_strip demo_rag '' Acme '') = Some [alice_row, shirt_row, alice_row]"
    by (simp add: demo_rag_def strip_examples)
  note inst = graph_context_facts [OF a b c]
  have r1: "render_fact demo_rag alice_row = ''Alice WORKS_FOR Acme''"
    using inst by (simp add: alice_row_def)
  have r2: "render_fact demo_rag shirt_row = ''Acme SELLS Shirt (Details: {price: 10})''"
    using inst by (simp add: shirt_row_def demo_rag_def demo_str_dict_def)
  have out: "get_graph_context demo_rag ''Who works for Acme?''
       = Inr (''Acme SELLS Shirt (Details: {price: 10})'' @ [CHR 0x0A] @ ''Alice WORKS_FOR Acme'')"
    using b c r1 r2 by (simp add: get_graph_context_def demo_rag_def)
  from a b c inst r1 r2 out show ?thesis by blast
qed

end
